theory Spec2Isabelle
  imports Main
begin

section \<open>The heap of list nodes\<close>

text \<open>
  \<^verbatim>\<open>csc::List<T>\<close> (src/src/list.hpp) is a doubly linked list of heap nodes with one
  extra node after the last element, which \<^verbatim>\<open>end()\<close> points to. The nodes are shared
  mutable objects reached through raw pointers, so the model has an explicit heap: a
  pointer is \<open>None\<close> (\<^verbatim>\<open>nullptr\<close>) or \<open>Some a\<close> for an address \<open>a\<close>, and the heap is
  the list of all cells handed out so far, cell \<open>a\<close> being \<open>Some node\<close> while the node
  is alive and \<open>None\<close> once it has been deleted. \<^verbatim>\<open>new\<close> takes the next unused address
  and never fails (memory exhaustion is outside the model); an address is never handed out
  twice, so that every use of a deleted node is visible.

  Isabelle does not admit names ending in an underscore: the members \<^verbatim>\<open>next_\<close>,
  \<^verbatim>\<open>prev_\<close>, \<^verbatim>\<open>data_\<close>, \<^verbatim>\<open>head_\<close>, \<^verbatim>\<open>tail_\<close>, \<^verbatim>\<open>size_\<close> are written with the
  suffix \<open>_m\<close>. The member functions \<^verbatim>\<open>begin\<close>, \<^verbatim>\<open>end\<close>, \<^verbatim>\<open>empty\<close>, \<^verbatim>\<open>size\<close>, \<^verbatim>\<open>back\<close> take the
  suffix \<open>_l\<close>.
\<close>

type_synonym addr = nat
type_synonym ptr = "nat option"

record 'a Node =
  next_m :: ptr
  prev_m :: ptr
  data_m :: 'a

type_synonym 'a heap = "'a Node option list"

text \<open>
  Dereferencing \<^verbatim>\<open>nullptr\<close> and touching a node that is not alive are undefined behaviour
  in C++. The model stops there with an error value.
\<close>

datatype error = NullDeref | Dangling

definition thn :: "error + 'a \<Rightarrow> ('a \<Rightarrow> error + 'b) \<Rightarrow> error + 'b" where
  "thn m f = (case m of Inl e \<Rightarrow> Inl e | Inr x \<Rightarrow> f x)"

definition lookup :: "'a heap \<Rightarrow> addr \<Rightarrow> 'a Node option" where
  "lookup h a = (if a < length h then h ! a else None)"

text \<open>Reading the node behind a pointer (\<^verbatim>\<open>p->...\<close> as an rvalue).\<close>

definition rd :: "'a heap \<Rightarrow> ptr \<Rightarrow> error + 'a Node" where
  "rd h p = (case p of None \<Rightarrow> Inl NullDeref
     | Some a \<Rightarrow> (case lookup h a of None \<Rightarrow> Inl Dangling | Some n \<Rightarrow> Inr n))"

text \<open>Assigning to a member of the node behind a pointer (\<^verbatim>\<open>p->member = ...\<close>).\<close>

definition wr :: "'a heap \<Rightarrow> ptr \<Rightarrow> ('a Node \<Rightarrow> 'a Node) \<Rightarrow> error + 'a heap" where
  "wr h p f = (case p of None \<Rightarrow> Inl NullDeref
     | Some a \<Rightarrow> (case lookup h a of None \<Rightarrow> Inl Dangling
         | Some n \<Rightarrow> Inr (h[a := Some (f n)])))"

text \<open>\<^verbatim>\<open>new Node(data, next, prev)\<close>: the address of the new node and the grown heap.\<close>

definition new_node :: "'a heap \<Rightarrow> 'a Node \<Rightarrow> addr \<times> 'a heap" where
  "new_node h n = (length h, h @ [Some n])"

text \<open>\<^verbatim>\<open>delete p\<close>: nothing for \<^verbatim>\<open>nullptr\<close>, an error for a node that is not alive.\<close>

definition delete_node :: "'a heap \<Rightarrow> ptr \<Rightarrow> error + 'a heap" where
  "delete_node h p = (case p of None \<Rightarrow> Inr h
     | Some a \<Rightarrow> (case lookup h a of None \<Rightarrow> Inl Dangling | Some n \<Rightarrow> Inr (h[a := None])))"

definition live :: "'a heap \<Rightarrow> nat" where
  "live h = length (filter (\<lambda>c. c \<noteq> None) h)"

section \<open>The list object\<close>

text \<open>
  \<^verbatim>\<open>size_\<close> is a \<^verbatim>\<open>std::size_t\<close>. It is modelled as a natural number. \<^verbatim>\<open>++size_\<close> is
  \<open>+ 1\<close> without wrap-around, because the counter is incremented once for each node
  allocated and 2^64 nodes do not fit the address space. \<^verbatim>\<open>--size_\<close> at zero does wrap
  (64-bit \<^verbatim>\<open>size_t\<close>), and \<open>size_dec\<close> writes that out.

  So \<open>+ 1\<close> is what the code computes as long as the counter is below 2^64 - 1, the
  largest \<^verbatim>\<open>size_t\<close>. A list grown from an empty one stays below it. The counter can
  hold 2^64 - 1 only after \<^verbatim>\<open>erase\<close> was called on an empty list, against its
  precondition, and \<^verbatim>\<open>--size_\<close> wrapped; there the code's \<^verbatim>\<open>++size_\<close> yields 0 and
  the model's does not. A statement about \<^verbatim>\<open>push_back\<close> or \<^verbatim>\<open>push_front\<close> on a list
  in an arbitrary state therefore assumes \<open>size_l l < 2 ^ 64 - 1\<close>.

  The value \<^verbatim>\<open>T()\<close> stored in the node after the last element is \<open>default\<close>, of the
  class of that name.
\<close>

record List_t =
  head_m :: ptr
  tail_m :: ptr
  size_m :: nat

type_synonym 'a state = "'a heap \<times> List_t"

definition size_dec :: "nat \<Rightarrow> nat" where
  "size_dec n = (if n = 0 then 2 ^ 64 - 1 else n - 1)"

text \<open>\<^verbatim>\<open>List() = default\<close>, with the member initialisers of lines 246 to 248.\<close>

definition default_ctor :: List_t where
  "default_ctor = \<lparr>head_m = None, tail_m = None, size_m = 0\<rparr>"

definition begin_l :: "List_t \<Rightarrow> ptr" where
  "begin_l l = head_m l"

definition end_l :: "'a heap \<Rightarrow> List_t \<Rightarrow> error + ptr" where
  "end_l h l = (case tail_m l of None \<Rightarrow> Inr None
     | Some t \<Rightarrow> thn (rd h (Some t)) (\<lambda>n. Inr (next_m n)))"

definition empty_l :: "List_t \<Rightarrow> bool" where
  "empty_l l = (head_m l = None)"

definition size_l :: "List_t \<Rightarrow> nat" where
  "size_l l = size_m l"

definition front :: "'a heap \<Rightarrow> List_t \<Rightarrow> error + 'a" where
  "front h l = thn (rd h (head_m l)) (\<lambda>n. Inr (data_m n))"

definition back_l :: "'a heap \<Rightarrow> List_t \<Rightarrow> error + 'a" where
  "back_l h l = thn (rd h (tail_m l)) (\<lambda>n. Inr (data_m n))"

text \<open>The iterator wraps a node pointer; \<^verbatim>\<open>*it\<close> and \<^verbatim>\<open>++it\<close> read the node.\<close>

definition it_deref :: "'a heap \<Rightarrow> ptr \<Rightarrow> error + 'a" where
  "it_deref h it = thn (rd h it) (\<lambda>n. Inr (data_m n))"

definition it_incr :: "'a heap \<Rightarrow> ptr \<Rightarrow> error + ptr" where
  "it_incr h it = thn (rd h it) (\<lambda>n. Inr (next_m n))"

definition it_decr :: "'a heap \<Rightarrow> ptr \<Rightarrow> error + ptr" where
  "it_decr h it = thn (rd h it) (\<lambda>n. Inr (prev_m n))"

subsection \<open>push_back and push_front\<close>

definition push_back :: "'a::default \<Rightarrow> 'a state \<Rightarrow> error + 'a state" where
  "push_back data st = (case st of (h, l) \<Rightarrow>
     if head_m l = None then
       (case new_node h \<lparr>next_m = None, prev_m = None, data_m = data\<rparr> of (a, h1) \<Rightarrow>
        let l1 = l\<lparr>head_m := Some a, tail_m := Some a\<rparr> in
        case new_node h1 \<lparr>next_m = None, prev_m = tail_m l1, data_m = default\<rparr> of (s, h2) \<Rightarrow>
        thn (wr h2 (tail_m l1) (\<lambda>n. n\<lparr>next_m := Some s\<rparr>)) (\<lambda>h3.
        Inr (h3, l1\<lparr>size_m := size_m l1 + 1\<rparr>)))
     else
       thn (rd h (tail_m l)) (\<lambda>t.
       let l1 = l\<lparr>tail_m := next_m t\<rparr> in
       thn (wr h (tail_m l1) (\<lambda>n. n\<lparr>data_m := data\<rparr>)) (\<lambda>h1.
       case new_node h1 \<lparr>next_m = None, prev_m = tail_m l1, data_m = default\<rparr> of (s, h2) \<Rightarrow>
       thn (wr h2 (tail_m l1) (\<lambda>n. n\<lparr>next_m := Some s\<rparr>)) (\<lambda>h3.
       Inr (h3, l1\<lparr>size_m := size_m l1 + 1\<rparr>)))))"

definition push_front :: "'a::default \<Rightarrow> 'a state \<Rightarrow> error + 'a state" where
  "push_front data st = (case st of (h, l) \<Rightarrow>
     if head_m l = None then
       (case new_node h \<lparr>next_m = None, prev_m = None, data_m = data\<rparr> of (a, h1) \<Rightarrow>
        let l1 = l\<lparr>head_m := Some a, tail_m := Some a\<rparr> in
        case new_node h1 \<lparr>next_m = None, prev_m = tail_m l1, data_m = default\<rparr> of (s, h2) \<Rightarrow>
        thn (wr h2 (tail_m l1) (\<lambda>n. n\<lparr>next_m := Some s\<rparr>)) (\<lambda>h3.
        Inr (h3, l1\<lparr>size_m := size_m l1 + 1\<rparr>)))
     else
       (case new_node h \<lparr>next_m = head_m l, prev_m = None, data_m = data\<rparr> of (node, h1) \<Rightarrow>
        thn (wr h1 (head_m l) (\<lambda>n. n\<lparr>prev_m := Some node\<rparr>)) (\<lambda>h2.
        Inr (h2, l\<lparr>head_m := Some node, size_m := size_m l + 1\<rparr>))))"

subsection \<open>clear and erase\<close>

text \<open>
  The loop of \<^verbatim>\<open>clear\<close>: \<^verbatim>\<open>std::exchange(head_, head_->next_)\<close> reads the successor of
  the head node, moves \<^verbatim>\<open>head_\<close> there and yields the old head, which is deleted. Each
  round deletes a live node, so the loop ends.
\<close>

function clear_loop :: "'a heap \<Rightarrow> ptr \<Rightarrow> error + 'a heap" where
  "clear_loop h p = (case p of None \<Rightarrow> Inr h
     | Some a \<Rightarrow> (case lookup h a of None \<Rightarrow> Inl Dangling
         | Some n \<Rightarrow> clear_loop (h[a := None]) (next_m n)))"
  by pat_completeness auto
termination
proof (relation "measure (\<lambda>(h, p). live h)")
  show "wf (measure (\<lambda>(h :: 'a heap, p :: ptr). live h))" by simp
next
  fix h :: "'a heap" and p :: ptr and a n
  assume "p = Some a" and "lookup h a = Some n"
  then have "a < length h" and "h ! a \<noteq> None"
    by (auto simp: lookup_def split: if_splits)
  then have "live (h[a := None]) < live h"
  proof (induction h arbitrary: a)
    case Nil
    then show ?case by simp
  next
    case (Cons c h)
    show ?case
    proof (cases a)
      case 0
      with Cons.prems show ?thesis by (simp add: live_def)
    next
      case (Suc k)
      with Cons.prems have "live (h[k := None]) < live h"
        by (intro Cons.IH) simp_all
      with Suc show ?thesis by (simp add: live_def)
    qed
  qed
  then show "((h[a := None], next_m n), (h, p)) \<in> measure (\<lambda>(h, p). live h)"
    by simp
qed

declare clear_loop.simps [simp del]

definition clear :: "'a state \<Rightarrow> error + 'a state" where
  "clear st = (case st of (h, l) \<Rightarrow>
     thn (clear_loop h (head_m l)) (\<lambda>h'.
     Inr (h', l\<lparr>head_m := None, tail_m := None, size_m := 0\<rparr>)))"

text \<open>
  \<^verbatim>\<open>erase\<close> returns the new state and the pointer wrapped by the returned iterator. Each
  of its statements reads the heap the previous one left.
\<close>

definition erase :: "ptr \<Rightarrow> 'a state \<Rightarrow> error + 'a state \<times> ptr" where
  "erase pos st = (case st of (h, l) \<Rightarrow>
     if size_l l = 1 then
       thn (clear (h, l)) (\<lambda>(h', l'). Inr ((h', l'), head_m l'))
     else
       let node = pos in
       thn (rd h node) (\<lambda>n.
       thn (wr h (prev_m n) (\<lambda>m. m\<lparr>next_m := next_m n\<rparr>)) (\<lambda>h1.
       thn (rd h1 node) (\<lambda>n1.
       thn (wr h1 (next_m n1) (\<lambda>m. m\<lparr>prev_m := prev_m n1\<rparr>)) (\<lambda>h2.
       thn (rd h2 node) (\<lambda>n2.
       let next = next_m n2 in
       thn (delete_node h2 node) (\<lambda>h3.
       Inr ((h3, l\<lparr>size_m := size_dec (size_m l)\<rparr>), next))))))))"

subsection \<open>Forward iteration\<close>

text \<open>
  What a caller sees of a list: the values met by
  \<^verbatim>\<open>for (auto it = l.begin(); it != l.end(); ++it) ... *it ...\<close>. On a heap whose
  \<^verbatim>\<open>next_\<close> pointers run in a circle that never meets \<^verbatim>\<open>end()\<close> the loop does not
  return, and the result is \<open>None\<close>.
\<close>

partial_function (option) iterate ::
  "'a heap \<Rightarrow> ptr \<Rightarrow> ptr \<Rightarrow> 'a list \<Rightarrow> (error + 'a list) option" where
  "iterate h it e acc = (if it = e then Some (Inr (rev acc)) else
     (case rd h it of Inl er \<Rightarrow> Some (Inl er)
      | Inr n \<Rightarrow> iterate h (next_m n) e (data_m n # acc)))"

definition forward :: "'a heap \<Rightarrow> List_t \<Rightarrow> (error + 'a list) option" where
  "forward h l = (case end_l h l of Inl er \<Rightarrow> Some (Inl er)
     | Inr e \<Rightarrow> iterate h (begin_l l) e [])"

subsection \<open>Constructors, assignment, destructor\<close>

text \<open>
  The loop of the two range constructors and of the copy constructor:
  \<^verbatim>\<open>for (auto it = begin; it != end; ++it) push_back(*it)\<close>. \<^verbatim>\<open>*it\<close> is read before the
  call and \<^verbatim>\<open>++it\<close> reads the heap that \<^verbatim>\<open>push_back\<close> left.
\<close>

partial_function (option) range_loop ::
  "ptr \<Rightarrow> ptr \<Rightarrow> 'a::default state \<Rightarrow> (error + 'a state) option" where
  "range_loop it e st = (if it = e then Some (Inr st) else
     (case rd (fst st) it of Inl er \<Rightarrow> Some (Inl er)
      | Inr n \<Rightarrow> (case push_back (data_m n) st of Inl er \<Rightarrow> Some (Inl er)
          | Inr st' \<Rightarrow> (case rd (fst st') it of Inl er \<Rightarrow> Some (Inl er)
              | Inr n' \<Rightarrow> range_loop (next_m n') e st'))))"

definition range_ctor :: "'a::default heap \<Rightarrow> ptr \<Rightarrow> ptr \<Rightarrow> (error + 'a state) option" where
  "range_ctor h b e = range_loop b e (h, default_ctor)"

text \<open>The loop of the initializer-list constructor, a run of \<^verbatim>\<open>push_back\<close> calls.\<close>

fun push_back_all :: "'a::default list \<Rightarrow> 'a state \<Rightarrow> error + 'a state" where
  "push_back_all [] st = Inr st"
| "push_back_all (x # xs) st = thn (push_back x st) (push_back_all xs)"

fun push_front_all :: "'a::default list \<Rightarrow> 'a state \<Rightarrow> error + 'a state" where
  "push_front_all [] st = Inr st"
| "push_front_all (x # xs) st = thn (push_front x st) (push_front_all xs)"

definition init_ctor :: "'a::default heap \<Rightarrow> 'a list \<Rightarrow> error + 'a state" where
  "init_ctor h xs = push_back_all xs (h, default_ctor)"

text \<open>The range-based \<^verbatim>\<open>for\<close> of the copy constructor takes \<^verbatim>\<open>other.end()\<close> once.\<close>

definition copy_ctor :: "'a::default heap \<Rightarrow> List_t \<Rightarrow> (error + 'a state) option" where
  "copy_ctor h other = (case end_l h other of Inl er \<Rightarrow> Some (Inl er)
     | Inr e \<Rightarrow> range_loop (begin_l other) e (h, default_ctor))"

text \<open>
  The three \<^verbatim>\<open>std::swap\<close> calls of the move operations and of copy assignment, on a
  pair of list objects (\<^verbatim>\<open>*this\<close>, the other one).
\<close>

definition swap_head :: "List_t \<times> List_t \<Rightarrow> List_t \<times> List_t" where
  "swap_head p = (case p of (a, b) \<Rightarrow> (a\<lparr>head_m := head_m b\<rparr>, b\<lparr>head_m := head_m a\<rparr>))"

definition swap_tail :: "List_t \<times> List_t \<Rightarrow> List_t \<times> List_t" where
  "swap_tail p = (case p of (a, b) \<Rightarrow> (a\<lparr>tail_m := tail_m b\<rparr>, b\<lparr>tail_m := tail_m a\<rparr>))"

definition swap_size :: "List_t \<times> List_t \<Rightarrow> List_t \<times> List_t" where
  "swap_size p = (case p of (a, b) \<Rightarrow> (a\<lparr>size_m := size_m b\<rparr>, b\<lparr>size_m := size_m a\<rparr>))"

text \<open>The move constructor yields the new list and what is left of the source.\<close>

definition move_ctor :: "List_t \<Rightarrow> List_t \<times> List_t" where
  "move_ctor other = (case swap_size (swap_tail (swap_head (default_ctor, other))) of
     (this, other') \<Rightarrow> (this, other'\<lparr>head_m := None, tail_m := None\<rparr>))"

text \<open>
  The assignments are modelled for two distinct objects, where the test
  \<^verbatim>\<open>this != std::addressof(other)\<close> succeeds; they yield the destination and the source
  afterwards. When the test fails nothing is executed, which is \<open>self_assign\<close>.
\<close>

definition move_assign :: "List_t \<Rightarrow> List_t \<Rightarrow> List_t \<times> List_t" where
  "move_assign this other = swap_size (swap_tail (swap_head (this, other)))"

definition self_assign :: "List_t \<Rightarrow> List_t" where
  "self_assign this = this"

text \<open>The destructor.\<close>

definition dtor :: "'a state \<Rightarrow> error + 'a heap" where
  "dtor st = thn (clear st) (\<lambda>(h, l). Inr h)"

text \<open>
  Copy assignment builds \<^verbatim>\<open>tmp\<close> with the copy constructor, swaps, and destroys
  \<^verbatim>\<open>tmp\<close>, which by then holds the old nodes of \<^verbatim>\<open>*this\<close>.
\<close>

definition copy_assign :: "'a::default heap \<Rightarrow> List_t \<Rightarrow> List_t \<Rightarrow> (error + 'a state) option" where
  "copy_assign h this other = (case copy_ctor h other of None \<Rightarrow> None
     | Some (Inl er) \<Rightarrow> Some (Inl er)
     | Some (Inr (h1, tmp)) \<Rightarrow>
         (case swap_size (swap_tail (swap_head (this, tmp))) of (this', tmp') \<Rightarrow>
            (case dtor (h1, tmp') of Inl er \<Rightarrow> Some (Inl er)
             | Inr h2 \<Rightarrow> Some (Inr (h2, this')))))"

section \<open>Well-formed lists\<close>

text \<open>
  \<open>is_list h l as vs s\<close>: in the heap \<open>h\<close> the object \<open>l\<close> is a list of the values
  \<open>vs\<close>, held in this order by the live nodes at the addresses \<open>as\<close>, followed by the
  extra node at \<open>s\<close> when the list is not empty. \<open>cells\<close> checks the links and values
  of a run of nodes whose first has the predecessor \<open>p\<close> and whose last has the
  successor \<open>q\<close>.
\<close>

fun first_or :: "addr list \<Rightarrow> ptr \<Rightarrow> ptr" where
  "first_or [] q = q"
| "first_or (b # bs) q = Some b"

fun cells :: "'a heap \<Rightarrow> ptr \<Rightarrow> addr list \<Rightarrow> 'a list \<Rightarrow> ptr \<Rightarrow> bool" where
  "cells h p [] [] q = True"
| "cells h p (a # as) (v # vs) q =
     (lookup h a = Some \<lparr>next_m = first_or as q, prev_m = p, data_m = v\<rparr>
      \<and> cells h (Some a) as vs q)"
| "cells h p [] (v # vs) q = False"
| "cells h p (a # as) [] q = False"

definition sentinel :: "'a heap \<Rightarrow> addr \<Rightarrow> addr \<Rightarrow> bool" where
  "sentinel h s t = (case lookup h s of None \<Rightarrow> False
     | Some n \<Rightarrow> next_m n = None \<and> prev_m n = Some t)"

definition is_list :: "'a heap \<Rightarrow> List_t \<Rightarrow> addr list \<Rightarrow> 'a list \<Rightarrow> addr \<Rightarrow> bool" where
  "is_list h l as vs s =
     (if as = [] then vs = [] \<and> l = default_ctor
      else distinct (as @ [s]) \<and> cells h None as vs (Some s) \<and> sentinel h s (last as)
           \<and> head_m l = Some (hd as) \<and> tail_m l = Some (last as) \<and> size_m l = length as)"

text \<open>The addresses a list owns: its nodes and, when it is not empty, the extra node.\<close>

definition nodes :: "addr list \<Rightarrow> addr \<Rightarrow> addr set" where
  "nodes as s = (if as = [] then {} else set (as @ [s]))"

text \<open>\<^verbatim>\<open>empty()\<close> and \<^verbatim>\<open>size() == 0\<close> give the same answer.\<close>

definition size_matches :: "List_t \<Rightarrow> bool" where
  "size_matches l = (empty_l l = (size_l l = 0))"

text \<open>The element type of the examples: \<^verbatim>\<open>int\<close>, whose \<^verbatim>\<open>T()\<close> is zero.\<close>

instantiation int :: default
begin

definition default_int :: int where
  "default_int = 0"

instance ..

end

text \<open>
  An example heap with two lists of \<^verbatim>\<open>int\<close>: \<open>ex_a\<close> holds 9 and \<open>ex_b\<close> holds
  1, 2. It is what \<^verbatim>\<open>a.push_back(9); b.push_back(1); b.push_back(2)\<close> builds from
  nothing.
\<close>

definition ex_heap :: "int heap" where
  "ex_heap = [Some \<lparr>next_m = Some 1, prev_m = None, data_m = 9\<rparr>,
              Some \<lparr>next_m = None, prev_m = Some 0, data_m = 0\<rparr>,
              Some \<lparr>next_m = Some 3, prev_m = None, data_m = 1\<rparr>,
              Some \<lparr>next_m = Some 4, prev_m = Some 2, data_m = 2\<rparr>,
              Some \<lparr>next_m = None, prev_m = Some 3, data_m = 0\<rparr>]"

definition ex_a :: List_t where
  "ex_a = \<lparr>head_m = Some 0, tail_m = Some 0, size_m = 1\<rparr>"

definition ex_b :: List_t where
  "ex_b = \<lparr>head_m = Some 2, tail_m = Some 3, size_m = 2\<rparr>"

section \<open>Basic facts\<close>

lemma thn_Inl [simp]: "thn (Inl e) f = Inl e"
  by (simp add: thn_def)

lemma thn_Inr [simp]: "thn (Inr x) f = f x"
  by (simp add: thn_def)

lemmas heap_defs = rd_def wr_def new_node_def delete_node_def lookup_def

lemmas list_defs = default_ctor_def begin_l_def end_l_def empty_l_def size_l_def
  front_def back_l_def it_deref_def it_incr_def it_decr_def

lemmas eval_defs = heap_defs list_defs push_back_def push_front_def erase_def clear_def
  size_dec_def forward_def iterate.simps clear_loop.simps default_int_def

section \<open>Heap and invariant lemmas\<close>

lemma lookup_less: "lookup h a = Some n \<Longrightarrow> a < length h"
  by (simp add: lookup_def split: if_splits)

lemma lookup_append_old [simp]: "a < length h \<Longrightarrow> lookup (h @ e) a = lookup h a"
  by (simp add: lookup_def nth_append)

lemma lookup_append_new [simp]: "lookup (h @ x # e) (length h) = x"
  by (simp add: lookup_def)

lemma lookup_update [simp]:
  "lookup (h[a := x]) b = (if b = a \<and> a < length h then x else lookup h b)"
  by (auto simp: lookup_def)

lemma cells_length: "cells h p as vs q \<Longrightarrow> length vs = length as"
  by (induction h p as vs q rule: cells.induct) auto

lemma cells_live: "cells h p as vs q \<Longrightarrow> a \<in> set as \<Longrightarrow> a < length h"
  by (induction h p as vs q rule: cells.induct) (auto dest: lookup_less)

lemma cells_frame:
  "cells h p as vs q \<Longrightarrow> (\<forall>a \<in> set as. lookup h' a = lookup h a) \<Longrightarrow> cells h' p as vs q"
  by (induction h p as vs q rule: cells.induct) auto

lemma cells_last:
  "cells h p as vs q \<Longrightarrow> as \<noteq> [] \<Longrightarrow> \<exists>n. lookup h (last as) = Some n \<and> next_m n = q"
  by (induction h p as vs q rule: cells.induct) (auto split: if_splits)

lemma first_or_snoc [simp]: "first_or (as @ [s]) q = first_or as (Some s)"
  by (cases as) auto

lemma cells_snoc:
  "cells h p as vs (Some s) \<Longrightarrow>
   lookup h s = Some \<lparr>next_m = q, prev_m = (if as = [] then p else Some (last as)), data_m = v\<rparr> \<Longrightarrow>
   cells h p (as @ [s]) (vs @ [v]) q"
  by (induction h p as vs "Some s" rule: cells.induct) (auto split: if_splits)

lemma iterate_cells:
  "cells h p as vs (Some s) \<Longrightarrow> s \<notin> set as \<Longrightarrow>
   iterate h (first_or as (Some s)) (Some s) acc = Some (Inr (rev acc @ vs))"
proof (induction h p as vs "Some s :: ptr" arbitrary: acc rule: cells.induct)
  case (1 h p)
  then show ?case by (subst iterate.simps) simp
next
  case (2 h p a as v vs)
  then have "a \<noteq> s" and "s \<notin> set as" by auto
  with 2 show ?case
    by (subst iterate.simps) (simp add: rd_def)
qed simp_all


lemma sentinelD:
  "sentinel h s t \<Longrightarrow> \<exists>d. lookup h s = Some \<lparr>next_m = None, prev_m = Some t, data_m = d\<rparr>"
  unfolding sentinel_def
proof (cases "lookup h s")
  case (Some n)
  assume "case lookup h s of None \<Rightarrow> False | Some n \<Rightarrow> next_m n = None \<and> prev_m n = Some t"
  with Some show ?thesis by (cases n) auto
qed simp

lemma is_list_empty [simp]: "is_list h l [] vs s = (vs = [] \<and> l = default_ctor)"
  by (simp add: is_list_def)

lemma is_list_length: "is_list h l as vs s \<Longrightarrow> length vs = length as \<and> size_l l = length vs"
  by (auto simp: is_list_def size_l_def default_ctor_def dest: cells_length split: if_splits)

lemma is_list_live: "is_list h l as vs s \<Longrightarrow> a \<in> nodes as s \<Longrightarrow> a < length h"
  by (auto simp: is_list_def nodes_def dest: cells_live sentinelD lookup_less split: if_splits)

lemma is_list_frame:
  "is_list h l as vs s \<Longrightarrow> (\<forall>a \<in> nodes as s. lookup h' a = lookup h a) \<Longrightarrow> is_list h' l as vs s"
  by (auto simp: is_list_def nodes_def sentinel_def intro: cells_frame split: if_splits)

lemma push_back_empty:
  "push_back v (h, default_ctor) =
     Inr (h @ [Some \<lparr>next_m = Some (Suc (length h)), prev_m = None, data_m = v\<rparr>,
               Some \<lparr>next_m = None, prev_m = Some (length h), data_m = default\<rparr>],
          \<lparr>head_m = Some (length h), tail_m = Some (length h), size_m = 1\<rparr>)"
  by (simp add: push_back_def default_ctor_def new_node_def wr_def list_update_append)

lemma push_back_nonempty:
  assumes "is_list h l as vs s" and "as \<noteq> []"
  shows "push_back v (h, l) =
     Inr (h[s := Some \<lparr>next_m = Some (length h), prev_m = Some (last as), data_m = v\<rparr>]
            @ [Some \<lparr>next_m = None, prev_m = Some s, data_m = default\<rparr>],
          l\<lparr>tail_m := Some s, size_m := size_m l + 1\<rparr>)"
proof -
  from assms have c: "cells h None as vs (Some s)" and sn: "sentinel h s (last as)"
    and hd: "head_m l = Some (hd as)" and tl: "tail_m l = Some (last as)"
    by (simp_all add: is_list_def)
  from cells_last[OF c assms(2)] obtain n where n: "lookup h (last as) = Some n" "next_m n = Some s"
    by blast
  from sentinelD[OF sn] obtain d where d: "lookup h s = Some \<lparr>next_m = None, prev_m = Some (last as), data_m = d\<rparr>"
    by blast
  then have "s < length h" by (rule lookup_less)
  with hd tl n d show ?thesis
    by (simp add: push_back_def rd_def wr_def new_node_def list_update_append)
qed

lemma push_back_is_list:
  assumes "is_list h l as vs s"
  shows "\<exists>h' l' as' s'. push_back v (h, l) = Inr (h', l') \<and> is_list h' l' as' (vs @ [v]) s'
     \<and> length h \<le> length h'
     \<and> (\<forall>a<length h. a \<notin> nodes as s \<longrightarrow> lookup h' a = lookup h a)
     \<and> nodes as' s' \<subseteq> nodes as s \<union> {a. length h \<le> a}"
proof (cases "as = []")
  case True
  let ?h' = "h @ [Some \<lparr>next_m = Some (Suc (length h)), prev_m = None, data_m = v\<rparr>,
               Some \<lparr>next_m = None, prev_m = Some (length h), data_m = default\<rparr>]"
  let ?l' = "\<lparr>head_m = Some (length h), tail_m = Some (length h), size_m = 1\<rparr>"
  from True assms have vs: "vs = []" and l: "l = default_ctor" by simp_all
  have pb: "push_back v (h, l) = Inr (?h', ?l')"
    unfolding l by (rule push_back_empty)
  have il: "is_list ?h' ?l' [length h] (vs @ [v]) (Suc (length h))"
    by (simp add: vs is_list_def sentinel_def lookup_def nth_append)
  have le: "length h \<le> length ?h'" by simp
  have fr: "\<forall>a<length h. a \<notin> nodes as s \<longrightarrow> lookup ?h' a = lookup h a" by simp
  have nd: "nodes [length h] (Suc (length h)) \<subseteq> nodes as s \<union> {a. length h \<le> a}"
    by (auto simp: nodes_def)
  from pb il le fr nd show ?thesis by blast
next
  case False
  let ?h' = "h[s := Some \<lparr>next_m = Some (length h), prev_m = Some (last as), data_m = v\<rparr>]
            @ [Some \<lparr>next_m = None, prev_m = Some s, data_m = default\<rparr>]"
  from assms False have c: "cells h None as vs (Some s)" and dist: "distinct (as @ [s])"
    and sn: "sentinel h s (last as)"
    and hd: "head_m l = Some (hd as)" and sz: "size_m l = length as"
    by (simp_all add: is_list_def)
  from sentinelD[OF sn] have s: "s < length h" by (auto dest: lookup_less)
  have live: "\<forall>a\<in>set as. a < length h" using c by (auto dest: cells_live)
  have "cells ?h' None as vs (Some s)"
    using c dist live by (intro cells_frame[OF c]) auto
  then have "cells ?h' None (as @ [s]) (vs @ [v]) (Some (length h))"
    using False s by (intro cells_snoc) simp_all
  moreover have "sentinel ?h' (length h) s"
    by (simp add: sentinel_def lookup_def nth_append)
  moreover have "distinct ((as @ [s]) @ [length h])"
    using dist live s by auto
  ultimately have "is_list ?h' (l\<lparr>tail_m := Some s, size_m := size_m l + 1\<rparr>) (as @ [s]) (vs @ [v]) (length h)"
    using hd sz False by (simp add: is_list_def hd_append)
  moreover have "\<forall>a<length h. a \<notin> nodes as s \<longrightarrow> lookup ?h' a = lookup h a"
    using False by (auto simp: nodes_def)
  moreover have "nodes (as @ [s]) (length h) \<subseteq> nodes as s \<union> {a. length h \<le> a}"
    using False by (auto simp: nodes_def)
  moreover have "length h \<le> length ?h'" by simp
  moreover note push_back_nonempty[OF assms False, of v]
  ultimately show ?thesis by blast
qed


lemma push_front_empty:
  "push_front v (h, default_ctor) =
     Inr (h @ [Some \<lparr>next_m = Some (Suc (length h)), prev_m = None, data_m = v\<rparr>,
               Some \<lparr>next_m = None, prev_m = Some (length h), data_m = default\<rparr>],
          \<lparr>head_m = Some (length h), tail_m = Some (length h), size_m = 1\<rparr>)"
  by (simp add: push_front_def default_ctor_def new_node_def wr_def list_update_append)

lemma push_front_is_list:
  assumes "is_list h l as vs s"
  shows "\<exists>h' l' as' s'. push_front v (h, l) = Inr (h', l') \<and> is_list h' l' as' (v # vs) s'"
proof (cases as)
  case Nil
  let ?h' = "h @ [Some \<lparr>next_m = Some (Suc (length h)), prev_m = None, data_m = v\<rparr>,
               Some \<lparr>next_m = None, prev_m = Some (length h), data_m = default\<rparr>]"
  let ?l' = "\<lparr>head_m = Some (length h), tail_m = Some (length h), size_m = 1\<rparr>"
  from Nil assms have vs: "vs = []" and l: "l = default_ctor" by simp_all
  have pf: "push_front v (h, l) = Inr (?h', ?l')"
    unfolding l by (rule push_front_empty)
  have "is_list ?h' ?l' [length h] (v # vs) (Suc (length h))"
    by (simp add: vs is_list_def sentinel_def lookup_def nth_append)
  with pf show ?thesis by blast
next
  case (Cons a as')
  with assms obtain w ws where vs: "vs = w # ws"
    by (cases vs) (auto simp: is_list_def)
  let ?h' = "(h @ [Some \<lparr>next_m = Some a, prev_m = None, data_m = v\<rparr>])
               [a := Some \<lparr>next_m = first_or as' (Some s), prev_m = Some (length h), data_m = w\<rparr>]"
  let ?l' = "l\<lparr>head_m := Some (length h), size_m := size_m l + 1\<rparr>"
  from assms Cons vs have a: "lookup h a = Some \<lparr>next_m = first_or as' (Some s), prev_m = None, data_m = w\<rparr>"
    and c: "cells h (Some a) as' ws (Some s)" and dist: "distinct (a # as' @ [s])"
    and sn: "sentinel h s (last as)"
    and hd: "head_m l = Some a" and tl: "tail_m l = Some (last as)" and sz: "size_m l = length as"
    by (simp_all add: is_list_def)
  from a have al: "a < length h" by (rule lookup_less)
  from sentinelD[OF sn] have sl: "s < length h" by (auto dest: lookup_less)
  have live: "\<forall>b\<in>set as'. b < length h" using c by (auto dest: cells_live)
  from hd a al have pf: "push_front v (h, l) = Inr (?h', ?l')"
    by (simp add: push_front_def new_node_def wr_def)
  have "cells ?h' (Some a) as' ws (Some s)"
    using dist live by (intro cells_frame[OF c]) auto
  then have "cells ?h' None (length h # a # as') (v # w # ws) (Some s)"
    using al by (simp add: lookup_def nth_append)
  moreover have "sentinel ?h' s (last as)"
    using sn sl dist by (auto simp: sentinel_def)
  moreover have "distinct ((length h # as) @ [s])"
    using dist live al sl Cons by auto
  ultimately have "is_list ?h' ?l' (length h # as) (v # vs) s"
    using tl sz Cons vs by (simp add: is_list_def)
  with pf show ?thesis by blast
qed

lemma forward_is_list:
  assumes "is_list h l as vs s"
  shows "forward h l = Some (Inr vs)"
proof (cases "as = []")
  case True
  with assms show ?thesis
    by (simp add: forward_def end_l_def begin_l_def default_ctor_def iterate.simps)
next
  case False
  with assms have c: "cells h None as vs (Some s)" and dist: "distinct (as @ [s])"
    and hd: "head_m l = Some (hd as)" and tl: "tail_m l = Some (last as)"
    by (simp_all add: is_list_def)
  from cells_last[OF c False] tl have "end_l h l = Inr (Some s)"
    by (auto simp: end_l_def rd_def)
  moreover from False have "first_or as (Some s) = Some (hd as)" by (cases as) auto
  moreover from dist have "s \<notin> set as" by simp
  note iterate_cells[OF c this, of "[]"]
  ultimately show ?thesis using hd by (simp add: forward_def begin_l_def)
qed

lemma push_back_all_is_list:
  "is_list h l as ws s \<Longrightarrow>
   \<exists>h' l' as' s'. push_back_all vs (h, l) = Inr (h', l') \<and> is_list h' l' as' (ws @ vs) s'"
proof (induction vs arbitrary: h l as ws s)
  case Nil
  then show ?case by auto
next
  case (Cons v vs)
  from push_back_is_list[OF Cons.prems, of v] obtain h1 l1 as1 s1 where
    "push_back v (h, l) = Inr (h1, l1)" and "is_list h1 l1 as1 (ws @ [v]) s1" by blast
  with Cons.IH[OF this(2)] show ?case by simp
qed

lemma push_front_all_is_list:
  "is_list h l as ws s \<Longrightarrow>
   \<exists>h' l' as' s'. push_front_all vs (h, l) = Inr (h', l') \<and> is_list h' l' as' (rev vs @ ws) s'"
proof (induction vs arbitrary: h l as ws s)
  case Nil
  then show ?case by auto
next
  case (Cons v vs)
  from push_front_is_list[OF Cons.prems, of v] obtain h1 l1 as1 s1 where
    "push_front v (h, l) = Inr (h1, l1)" and "is_list h1 l1 as1 (v # ws) s1" by blast
  with Cons.IH[OF this(2)] show ?case by simp
qed

lemmas ex_defs = ex_heap_def ex_a_def ex_b_def is_list_def sentinel_def

lemma ex_reachable:
  "push_back_all [9] ([], default_ctor) = Inr (take 2 ex_heap, ex_a)"
  "push_back_all [1, 2] (take 2 ex_heap, default_ctor) = Inr (ex_heap, ex_b)"
  by (simp_all add: eval_defs ex_defs)

lemma ex_is_list:
  "is_list ex_heap ex_a [0] [9] 1" "is_list ex_heap ex_b [2, 3] [1, 2] 4"
  by (simp_all add: ex_defs lookup_def)

lemma is_list_single:
  assumes "is_list h l as vs s" and "length vs = 1"
  shows "\<exists>a v d. as = [a] \<and> vs = [v] \<and> a \<noteq> s \<and> a < length h \<and> s < length h
     \<and> lookup h a = Some \<lparr>next_m = Some s, prev_m = None, data_m = v\<rparr>
     \<and> lookup h s = Some \<lparr>next_m = None, prev_m = Some a, data_m = d\<rparr>
     \<and> l = \<lparr>head_m = Some a, tail_m = Some a, size_m = 1\<rparr>"
proof -
  from assms obtain v where vs: "vs = [v]" by (cases vs) auto
  from assms is_list_length[OF assms(1)] obtain a where as: "as = [a]"
    by (cases as) auto
  from assms(1) have "sentinel h s a" by (simp add: is_list_def as)
  from sentinelD[OF this] obtain d where
    d: "lookup h s = Some \<lparr>next_m = None, prev_m = Some a, data_m = d\<rparr>" by blast
  from assms(1) have a: "lookup h a = Some \<lparr>next_m = Some s, prev_m = None, data_m = v\<rparr>"
    and "a \<noteq> s" and "head_m l = Some a" "tail_m l = Some a" "size_m l = 1"
    by (simp_all add: is_list_def as vs)
  moreover from this have "l = \<lparr>head_m = Some a, tail_m = Some a, size_m = 1\<rparr>"
    by (cases l) simp
  moreover note d lookup_less[OF d] lookup_less[OF a] as vs
  ultimately show ?thesis by blast
qed

section \<open>Erasing an interior element\<close>

lemma first_or_append: "first_or (xs @ ys) q = first_or xs (first_or ys q)"
  by (cases xs) simp_all

lemma cells_append:
  "length us = length xs \<Longrightarrow>
   cells h p (xs @ ys) (us @ ws) q =
     (cells h p xs us (first_or ys q) \<and> cells h (if xs = [] then p else Some (last xs)) ys ws q)"
proof (induction xs arbitrary: p us)
  case Nil
  then show ?case by simp
next
  case (Cons x xs)
  then obtain u us' where "us = u # us'" by (cases us) simp_all
  with Cons show ?case by (auto simp: first_or_append)
qed

lemma cells_relink_last:
  assumes "cells h p xs us q" and "xs \<noteq> []" and "distinct xs"
    and "lookup h' (last xs) = map_option (next_m_update (\<lambda>_. q')) (lookup h (last xs))"
    and "\<forall>x\<in>set (butlast xs). lookup h' x = lookup h x"
  shows "cells h' p xs us q'"
  using assms
proof (induction h p xs us q rule: cells.induct)
  case (2 h p a as v vs q)
  show ?case
  proof (cases "as = []")
    case True
    with 2 show ?thesis by (cases vs) auto
  next
    case False
    with 2 have "cells h' (Some a) as vs q'" by auto
    moreover from False have "first_or as q' = first_or as q" by (cases as) simp_all
    ultimately show ?thesis using 2 False by auto
  qed
qed simp_all

lemma cells_relink_first:
  assumes "cells h p ys ws q" and "distinct ys"
    and "lookup h' (hd ys) = map_option (prev_m_update (\<lambda>_. p')) (lookup h (hd ys))"
    and "\<forall>x\<in>set (tl ys). lookup h' x = lookup h x"
  shows "cells h' p' ys ws q"
proof (cases ys)
  case Nil
  with assms(1) show ?thesis by (cases ws) simp_all
next
  case (Cons y ys')
  with assms(1) obtain w ws' where ws: "ws = w # ws'" by (cases ws) simp_all
  from assms(1) Cons ws
  have 1: "lookup h y = Some \<lparr>next_m = first_or ys' q, prev_m = p, data_m = w\<rparr>"
    and 2: "cells h (Some y) ys' ws' q" by simp_all
  from assms(4) Cons have 4: "\<forall>x\<in>set ys'. lookup h' x = lookup h x" by simp
  from cells_frame[OF 2 4] have 5: "cells h' (Some y) ys' ws' q" .
  from assms(3) Cons 1
  have 6: "lookup h' y = Some \<lparr>next_m = first_or ys' q, prev_m = p', data_m = w\<rparr>" by simp
  from 5 6 Cons ws show ?thesis by simp
qed

text \<open>
  For a node that is neither the first nor the last one, \<^verbatim>\<open>erase\<close> does what is
  expected of it: the node is unlinked and deleted, the other values keep their order, the
  size goes down by one and the returned iterator points to the value that followed.
\<close>

lemma erase_interior:
  assumes il: "is_list h l (xs @ a # ys) (us @ v # ws) s"
    and len: "length us = length xs" and xs: "xs \<noteq> []" and ys: "ys \<noteq> []"
  shows "\<exists>h' l' it. erase (Some a) (h, l) = Inr ((h', l'), it)
     \<and> is_list h' l' (xs @ ys) (us @ ws) s \<and> size_l l' + 1 = size_l l
     \<and> forward h' l' = Some (Inr (us @ ws))
     \<and> it_deref h' it = Inr (hd ws) \<and> lookup h' a = None"
proof -
  let ?pa = "last xs" and ?na = "hd ys"
  from il have c: "cells h None (xs @ a # ys) (us @ v # ws) (Some s)"
    and dist: "distinct (xs @ a # ys @ [s])"
    and sn: "sentinel h s (last ys)"
    and hd: "head_m l = Some (hd xs)" and tl: "tail_m l = Some (last ys)"
    and sz: "size_m l = length xs + 1 + length ys"
    using xs ys by (simp_all add: is_list_def)
  from c len xs have cx: "cells h None xs us (Some a)"
    and ca: "cells h (Some ?pa) (a # ys) (v # ws) (Some s)"
    by (simp_all add: cells_append)
  from ca ys have a: "lookup h a = Some \<lparr>next_m = Some ?na, prev_m = Some ?pa, data_m = v\<rparr>"
    and cy: "cells h (Some a) ys ws (Some s)"
    by (cases ys; simp)+
  from cells_last[OF cx xs] obtain np where np: "lookup h ?pa = Some np" "next_m np = Some a"
    by blast
  from ys cy obtain y ys' w ws' where yw: "ys = y # ys'" "ws = w # ws'"
    by (cases ys; cases ws) simp_all
  with cy have nn: "lookup h y = Some \<lparr>next_m = first_or ys' (Some s), prev_m = Some a, data_m = w\<rparr>"
    by simp
  from xs dist yw have ne: "?pa \<noteq> a" "?pa \<noteq> y" "a \<noteq> y" "?pa \<noteq> s" "a \<noteq> s" "y \<noteq> s"
    "?pa \<in> set xs"
    by (auto simp: last_in_set)
  note lt = lookup_less[OF a] lookup_less[OF np(1)] lookup_less[OF nn]
  let ?h' = "h[?pa := Some (np\<lparr>next_m := Some y\<rparr>),
               y := Some \<lparr>next_m = first_or ys' (Some s), prev_m = Some ?pa, data_m = w\<rparr>,
               a := None]"
  let ?l' = "l\<lparr>size_m := size_m l - 1\<rparr>"
  from sz xs have "size_m l \<noteq> 1" "size_m l \<noteq> 0" by (cases xs; simp)+
  with a np nn ne lt yw have er: "erase (Some a) (h, l) = Inr ((?h', ?l'), Some y)"
    by (simp add: erase_def size_l_def rd_def wr_def delete_node_def size_dec_def)
  from dist have dx: "distinct xs" by simp
  have "distinct (butlast xs @ [?pa])" using dx xs by simp
  then have nb: "?pa \<notin> set (butlast xs)" by (simp only: distinct_append) simp
  have cx': "cells ?h' None xs us (Some y)"
  proof (rule cells_relink_last[OF cx xs dx])
    show "lookup ?h' ?pa = map_option (next_m_update (\<lambda>_. Some y)) (lookup h ?pa)"
      using np ne lt by simp
    show "\<forall>x\<in>set (butlast xs). lookup ?h' x = lookup h x"
    proof
      fix x assume x: "x \<in> set (butlast xs)"
      then have "x \<in> set xs" by (rule in_set_butlastD)
      with dist yw have "x \<noteq> y" "x \<noteq> a" by auto
      moreover from x nb have "x \<noteq> ?pa" by auto
      ultimately show "lookup ?h' x = lookup h x" by simp
    qed
  qed
  have cy': "cells ?h' (Some ?pa) ys ws (Some s)"
  proof (rule cells_relink_first[OF cy])
    show "distinct ys" using dist by simp
    show "lookup ?h' (hd ys) = map_option (prev_m_update (\<lambda>_. Some ?pa)) (lookup h (hd ys))"
      using nn ne lt yw by simp
    show "\<forall>x\<in>set (tl ys). lookup ?h' x = lookup h x"
    proof
      fix x assume "x \<in> set (tl ys)"
      with dist yw ne have "x \<noteq> y" "x \<noteq> a" "x \<noteq> ?pa" by auto
      then show "lookup ?h' x = lookup h x" by simp
    qed
  qed
  from cx' cy' have "cells ?h' None (xs @ ys) (us @ ws) (Some s)"
    using len xs yw by (simp add: cells_append)
  moreover have "sentinel ?h' s (last ys)"
    using sn ne yw dist by (auto simp: sentinel_def)
  ultimately have il': "is_list ?h' ?l' (xs @ ys) (us @ ws) s"
    using dist hd tl sz xs ys by (simp add: is_list_def)
  have "it_deref ?h' (Some y) = Inr (hd ws)"
    using ne lt yw by (simp add: it_deref_def rd_def)
  moreover have "lookup ?h' a = None" using lt by simp
  moreover have "size_l ?l' + 1 = size_l l" using sz by (simp add: size_l_def)
  ultimately show ?thesis using er il' forward_is_list[OF il'] by blast
qed

section \<open>Erasing the first and the last element\<close>

text \<open>
  Claim C1. After \<^verbatim>\<open>push_back(1); push_back(2); push_back(3)\<close> on an empty list,
  forward iteration visits 1, 2, 3 and \<^verbatim>\<open>size()\<close> is 3, as the claim says. The claim
  goes on: \<^verbatim>\<open>erase(begin())\<close> leaves 2, 3 and returns an iterator to 2. In the code the
  first node has a null \<^verbatim>\<open>prev_\<close>, the list has three elements, and so line 220,
  \<^verbatim>\<open>node->prev_->next_ = node->next_\<close>, assigns through a null pointer: the call has no
  defined result.
\<close>

theorem erase_begin_of_three:
  "\<exists>h l. push_back_all [1, 2, 3 :: int] ([], default_ctor) = Inr (h, l)
     \<and> forward h l = Some (Inr [1, 2, 3]) \<and> size_l l = 3
     \<and> erase (begin_l l) (h, l) = Inl NullDeref"
  by (simp add: eval_defs)

text \<open>
  Claim C2. The claim wants \<^verbatim>\<open>tail_\<close> to point to the last element after every
  operation, in particular after erasing the former last element. \<^verbatim>\<open>erase\<close> never
  assigns \<^verbatim>\<open>tail_\<close> when the list keeps an element: after
  \<^verbatim>\<open>push_back(1); push_back(2)\<close> and \<^verbatim>\<open>erase(++begin())\<close> the list has one element,
  \<^verbatim>\<open>tail_\<close> still holds the address of the deleted node, and \<^verbatim>\<open>end()\<close>,
  \<^verbatim>\<open>back()\<close> and a forward iteration read that deleted node.
\<close>

theorem erase_last_of_two:
  "\<exists>h l h' l' it. push_back_all [1, 2 :: int] ([], default_ctor) = Inr (h, l)
     \<and> forward h l = Some (Inr [1, 2])
     \<and> it_incr h (begin_l l) = Inr (tail_m l)
     \<and> erase (tail_m l) (h, l) = Inr ((h', l'), it)
     \<and> size_l l' = 1 \<and> tail_m l' = tail_m l \<and> rd h' (tail_m l') = Inl Dangling
     \<and> end_l h' l' = Inl Dangling \<and> back_l h' l' = Inl Dangling
     \<and> forward h' l' = Some (Inl Dangling)"
  by (simp add: eval_defs)

text \<open>
  Claim C3. The claim is about every list of two or more elements and every position of
  a real node. For the position of the first node the code does not do what it says: on
  every well-formed list with \<^verbatim>\<open>size() >= 2\<close>, \<^verbatim>\<open>erase(begin())\<close> assigns through the
  null \<^verbatim>\<open>prev_\<close> of the first node (line 220) and has no defined result, so the size
  is not reduced and no iterator is returned. (For interior nodes \<open>erase_interior\<close>
  above shows the behaviour the claim describes.)
\<close>

theorem erase_first_null_deref:
  assumes "is_list h l as vs s" and "2 \<le> size_l l"
  shows "erase (begin_l l) (h, l) = Inl NullDeref"
proof -
  from assms is_list_length[OF assms(1)] obtain a as' v vs' where "as = a # as'" "vs = v # vs'"
    by (cases as; cases vs) auto
  with assms have "head_m l = Some a"
    "lookup h a = Some \<lparr>next_m = first_or as' (Some s), prev_m = None, data_m = v\<rparr>"
    by (simp_all add: is_list_def)
  with assms(2) show ?thesis
    by (simp add: erase_def begin_l_def rd_def wr_def)
qed

theorem erase_first_witness:
  "is_list ex_heap ex_b [2, 3] [1, 2] 4 \<and> 2 \<le> size_l ex_b
   \<and> erase (begin_l ex_b) (ex_heap, ex_b) = Inl NullDeref"
  using erase_first_null_deref[of ex_heap ex_b "[2, 3]" "[1, 2]" 4]
  by (simp add: ex_defs lookup_def size_l_def)

section \<open>Sequences of insertions\<close>

text \<open>
  Claim C5. For every sequence of values \<open>vs\<close> (of any length, also empty), the calls
  \<^verbatim>\<open>push_back(v1)\<close>, ..., \<^verbatim>\<open>push_back(vn)\<close> on an empty list all return, forward
  iteration from \<^verbatim>\<open>begin()\<close> to \<^verbatim>\<open>end()\<close> then visits exactly \<open>vs\<close> in order, and
  \<^verbatim>\<open>size()\<close> is the length of \<open>vs\<close>. The heap \<open>h\<close> the list is built in is arbitrary.
\<close>

theorem push_back_sequence:
  "\<exists>h' l'. push_back_all vs (h, default_ctor) = Inr (h', l')
     \<and> forward h' l' = Some (Inr vs) \<and> size_l l' = length vs"
proof -
  have "is_list h default_ctor [] [] 0" by simp
  from push_back_all_is_list[OF this, of vs] obtain h' l' as' s' where
    "push_back_all vs (h, default_ctor) = Inr (h', l')" and "is_list h' l' as' vs s'" by auto
  then show ?thesis by (auto dest: forward_is_list is_list_length)
qed

theorem push_back_sequence_witness:
  "\<exists>h' l'. push_back_all [4, 5, 6 :: int] (ex_heap, default_ctor) = Inr (h', l')
     \<and> forward h' l' = Some (Inr [4, 5, 6]) \<and> size_l l' = 3"
  using push_back_sequence[of "[4, 5, 6 :: int]" ex_heap] by (simp add: numeral_3_eq_3)

text \<open>
  Claim C6. For every sequence of values \<open>vs\<close>, the calls \<^verbatim>\<open>push_front(v1)\<close>, ...,
  \<^verbatim>\<open>push_front(vn)\<close> on an empty list all return, forward iteration then visits the
  values in reverse call order, and \<^verbatim>\<open>size()\<close> is the length of \<open>vs\<close>.
\<close>

theorem push_front_sequence:
  "\<exists>h' l'. push_front_all vs (h, default_ctor) = Inr (h', l')
     \<and> forward h' l' = Some (Inr (rev vs)) \<and> size_l l' = length vs"
proof -
  have "is_list h default_ctor [] [] 0" by simp
  from push_front_all_is_list[OF this, of vs] obtain h' l' as' s' where
    "push_front_all vs (h, default_ctor) = Inr (h', l')" and "is_list h' l' as' (rev vs) s'" by auto
  then show ?thesis by (auto dest: forward_is_list is_list_length)
qed

theorem push_front_sequence_witness:
  "\<exists>h' l'. push_front_all [4, 5, 6 :: int] (ex_heap, default_ctor) = Inr (h', l')
     \<and> forward h' l' = Some (Inr [6, 5, 4]) \<and> size_l l' = 3"
  using push_front_sequence[of "[4, 5, 6 :: int]" ex_heap] by (simp add: numeral_3_eq_3)

section \<open>Erasing the only element\<close>

text \<open>
  Claim C7. For every well-formed list with exactly one element, \<^verbatim>\<open>erase\<close> at the
  position of that element returns, leaves the list with \<^verbatim>\<open>empty()\<close> true and
  \<^verbatim>\<open>size()\<close> zero, and returns an iterator that wraps the null \<^verbatim>\<open>head_\<close> and equals
  \<^verbatim>\<open>end()\<close> of the emptied list. Both nodes, the element's and the extra one, are
  deleted.
\<close>

theorem erase_only_element:
  assumes "is_list h l as vs s" and "length vs = 1"
  shows "\<exists>h' l' it. erase (begin_l l) (h, l) = Inr ((h', l'), it)
     \<and> empty_l l' \<and> size_l l' = 0 \<and> it = None \<and> it = head_m l' \<and> end_l h' l' = Inr it
     \<and> is_list h' l' [] [] s \<and> (\<forall>a\<in>nodes as s. lookup h' a = None)"
proof -
  from is_list_single[OF assms] obtain a v d where
    "as = [a]" "a \<noteq> s" "a < length h" "s < length h"
    "lookup h a = Some \<lparr>next_m = Some s, prev_m = None, data_m = v\<rparr>"
    "lookup h s = Some \<lparr>next_m = None, prev_m = Some a, data_m = d\<rparr>"
    "l = \<lparr>head_m = Some a, tail_m = Some a, size_m = 1\<rparr>" by blast
  then show ?thesis
    by (simp add: erase_def clear_def clear_loop.simps list_defs nodes_def)
qed

theorem erase_only_element_witness:
  "is_list ex_heap ex_a [0] [9] 1 \<and> length [9 :: int] = 1
   \<and> erase (begin_l ex_a) (ex_heap, ex_a) = Inr ((ex_heap[0 := None, 1 := None], default_ctor), None)
   \<and> empty_l default_ctor \<and> size_l default_ctor = 0
   \<and> end_l (ex_heap[0 := None, 1 := None]) default_ctor = Inr None"
  using erase_only_element[of ex_heap ex_a "[0]" "[9]" 1]
  by (simp add: eval_defs ex_defs)

text \<open>
  Claim C9. Whenever \<^verbatim>\<open>size()\<close> is 1, the result of \<^verbatim>\<open>erase(pos)\<close> does not depend on
  \<open>pos\<close>: it is the result of \<^verbatim>\<open>clear()\<close> together with an iterator wrapping null. The
  example erases at the extra node (\<^verbatim>\<open>end()\<close>), at a node of another list and at a
  null iterator, with the same outcome each time.
\<close>

theorem erase_size_one_ignores_position:
  "size_l l = 1 \<Longrightarrow> erase pos (h, l) = thn (clear (h, l)) (\<lambda>st. Inr (st, None))"
  by (cases "clear_loop h (head_m l)") (simp_all add: erase_def clear_def)

theorem erase_size_one_witness:
  "size_l ex_a = 1
   \<and> erase (Some 1) (ex_heap, ex_a) = Inr ((ex_heap[0 := None, 1 := None], default_ctor), None)
   \<and> erase (Some 3) (ex_heap, ex_a) = Inr ((ex_heap[0 := None, 1 := None], default_ctor), None)
   \<and> erase None (ex_heap, ex_a) = Inr ((ex_heap[0 := None, 1 := None], default_ctor), None)"
  using erase_size_one_ignores_position[of ex_a "Some 1" ex_heap]
    erase_size_one_ignores_position[of ex_a "Some 3" ex_heap]
    erase_size_one_ignores_position[of ex_a None ex_heap]
  by (simp add: eval_defs ex_defs)

section \<open>Moving\<close>

text \<open>
  Claim C4 says that after move construction and after move assignment the source is
  empty. For move assignment that is false when the destination held elements: with
  \<open>ex_a\<close> (holding 9) as destination and \<open>ex_b\<close> as source, the source afterwards
  is not empty and holds 9.
\<close>

theorem move_assign_source_not_empty:
  "push_back_all [9] ([], default_ctor) = Inr (take 2 ex_heap, ex_a)
   \<and> push_back_all [1, 2] (take 2 ex_heap, default_ctor) = Inr (ex_heap, ex_b)
   \<and> \<not> empty_l (snd (move_assign ex_a ex_b))
   \<and> forward ex_heap (snd (move_assign ex_a ex_b)) = Some (Inr [9])"
  by (simp add: eval_defs ex_defs move_assign_def swap_head_def swap_tail_def swap_size_def)

text \<open>
  Claim C4 as amended. Move construction leaves the source empty, and the new list holds
  the source's original sequence and size. Move assignment from a distinct source
  exchanges the two lists: the destination holds the source's original sequence and
  size, the source holds the destination's former sequence, and so the source is empty
  afterwards exactly when the destination was empty before.
\<close>

theorem move_exchanges:
  assumes "is_list h this bs ws t" and "is_list h other as vs s"
  shows "move_ctor other = (other, default_ctor)
     \<and> empty_l (snd (move_ctor other))
     \<and> forward h (fst (move_ctor other)) = Some (Inr vs)
     \<and> size_l (fst (move_ctor other)) = length vs
     \<and> move_assign this other = (other, this)
     \<and> forward h (fst (move_assign this other)) = Some (Inr vs)
     \<and> size_l (fst (move_assign this other)) = length vs
     \<and> forward h (snd (move_assign this other)) = Some (Inr ws)
     \<and> empty_l (snd (move_assign this other)) = (ws = [])"
proof -
  have mc: "move_ctor other = (other, default_ctor)"
    by (simp add: move_ctor_def swap_head_def swap_tail_def swap_size_def default_ctor_def)
  have ma: "move_assign this other = (other, this)"
    by (simp add: move_assign_def swap_head_def swap_tail_def swap_size_def)
  have "empty_l this = (ws = [])"
    using assms(1) is_list_length[OF assms(1)]
    by (auto simp: is_list_def empty_l_def default_ctor_def split: if_splits)
  with mc ma forward_is_list[OF assms(1)] forward_is_list[OF assms(2)] is_list_length[OF assms(2)]
  show ?thesis by (simp add: empty_l_def default_ctor_def)
qed

theorem move_exchanges_witness:
  "is_list ex_heap ex_a [0] [9] 1 \<and> is_list ex_heap ex_b [2, 3] [1, 2] 4
   \<and> move_ctor ex_b = (ex_b, default_ctor)
   \<and> forward ex_heap (fst (move_ctor ex_b)) = Some (Inr [1, 2])
   \<and> move_assign ex_a ex_b = (ex_b, ex_a)
   \<and> forward ex_heap (fst (move_assign ex_a ex_b)) = Some (Inr [1, 2])
   \<and> forward ex_heap (snd (move_assign ex_a ex_b)) = Some (Inr [9])"
  using move_exchanges[of ex_heap ex_a "[0]" "[9]" 1 ex_b "[2, 3]" "[1, 2]" 4] ex_is_list
  by auto

section \<open>The element counter and emptiness\<close>

lemma thn_eq_Inr: "thn m f = Inr y \<longleftrightarrow> (\<exists>x. m = Inr x \<and> f x = Inr y)"
  by (cases m) simp_all

lemma push_back_result:
  "push_back v (h, l) = Inr (h', l') \<Longrightarrow> head_m l' \<noteq> None \<and> size_m l' = size_m l + 1"
  by (auto simp: push_back_def thn_eq_Inr new_node_def Let_def split: if_splits)

lemma push_front_result:
  "push_front v (h, l) = Inr (h', l') \<Longrightarrow> head_m l' \<noteq> None \<and> size_m l' = size_m l + 1"
  by (auto simp: push_front_def thn_eq_Inr new_node_def Let_def split: if_splits)

lemma push_back_size_matches: "push_back v (h, l) = Inr (h', l') \<Longrightarrow> size_matches l'"
  by (drule push_back_result) (simp add: size_matches_def empty_l_def size_l_def)

lemma push_front_size_matches: "push_front v (h, l) = Inr (h', l') \<Longrightarrow> size_matches l'"
  by (drule push_front_result) (simp add: size_matches_def empty_l_def size_l_def)

lemma clear_size_matches: "clear (h, l) = Inr (h', l') \<Longrightarrow> size_matches l'"
  by (auto simp: clear_def thn_eq_Inr size_matches_def empty_l_def size_l_def)

lemma erase_size_matches:
  assumes "size_matches l" and "\<not> empty_l l" and "erase pos (h, l) = Inr ((h', l'), it)"
  shows "size_matches l'"
proof (cases "size_l l = 1")
  case True
  with assms(3) obtain st where "clear (h, l) = Inr st" and "st = (h', l')"
    by (auto simp: erase_def thn_eq_Inr)
  then show ?thesis by (auto dest: clear_size_matches)
next
  case False
  with assms(3) have "l' = l\<lparr>size_m := size_dec (size_m l)\<rparr>"
    by (auto simp: erase_def thn_eq_Inr Let_def)
  with False assms(1,2) show ?thesis
    by (auto simp: size_matches_def empty_l_def size_l_def size_dec_def)
qed

lemma push_back_all_size_matches:
  "size_matches l \<Longrightarrow> push_back_all xs (h, l) = Inr (h', l') \<Longrightarrow> size_matches l'"
proof (induction xs arbitrary: h l)
  case Nil
  then show ?case by simp
next
  case (Cons x xs)
  from Cons.prems(2) obtain h1 l1 where 1: "push_back x (h, l) = Inr (h1, l1)"
    and 2: "push_back_all xs (h1, l1) = Inr (h', l')"
    by (auto simp: thn_eq_Inr)
  from Cons.IH[OF push_back_size_matches[OF 1] 2] show ?case .
qed

lemma range_loop_size_matches:
  assumes "range_loop it e st = Some r"
  shows "size_matches (snd st) \<longrightarrow> (\<forall>h' l'. r = Inr (h', l') \<longrightarrow> size_matches l')"
  using assms
proof (induction it e st r rule: range_loop.raw_induct[rotated, consumes 1, case_names step])
  case 1: (step loop it e st r)
  show ?case
  proof (cases "it = e")
    case True
    with 1(2) show ?thesis by auto
  next
    case False
    show ?thesis
    proof (intro impI allI)
      fix h' l'
      assume r: "r = Inr (h', l')"
      from 1(2) False r obtain n where n: "rd (fst st) it = Inr n"
        by (cases "rd (fst st) it") auto
      from 1(2) False r n obtain st' where pb: "push_back (data_m n) st = Inr st'"
        by (cases "push_back (data_m n) st") auto
      from 1(2) False r n pb obtain n' where n': "rd (fst st') it = Inr n'"
        by (cases "rd (fst st') it") auto
      from 1(2) False n pb n' have rec: "loop (next_m n') e st' = Some r"
        by simp
      from pb have "size_matches (snd st')"
        by (cases st; cases st') (auto dest: push_back_size_matches)
      with 1(1)[OF rec] r show "size_matches l'" by blast
    qed
  qed
qed


lemma copy_ctor_size_matches: "copy_ctor h other = Some (Inr (h', l')) \<Longrightarrow> size_matches l'"
  using range_loop_size_matches[of "begin_l other" _ "(h, default_ctor)" "Inr (h', l')"]
  by (auto simp: copy_ctor_def size_matches_def list_defs split: sum.splits)

lemma swap_all: "swap_size (swap_tail (swap_head (a, b))) = (b, a)"
  by (simp add: swap_head_def swap_tail_def swap_size_def)

lemma move_ctor_eq: "move_ctor other = (other, default_ctor)"
  by (simp add: move_ctor_def swap_head_def swap_tail_def swap_size_def default_ctor_def)

lemma move_assign_eq: "move_assign this other = (other, this)"
  by (simp add: move_assign_def swap_all)

lemma copy_assign_size_matches:
  "copy_assign h this other = Some (Inr (h', l')) \<Longrightarrow> size_matches l'"
  by (auto simp: copy_assign_def swap_all split: option.splits sum.splits
      dest: copy_ctor_size_matches)

text \<open>
  Claim C10. After every public operation that returns, \<^verbatim>\<open>empty()\<close> is true if and
  only if \<^verbatim>\<open>size()\<close> is zero: for the default constructor, the range constructors, the
  initializer-list constructor, the copy constructor, the move constructor (for the new
  list and for the source), \<^verbatim>\<open>push_back\<close>, \<^verbatim>\<open>push_front\<close>, \<^verbatim>\<open>erase\<close> on a list that
  is not empty (it has a real node to erase), \<^verbatim>\<open>clear\<close>, copy assignment, move
  assignment (for both lists) and self-assignment. Where an operation works on a list that
  exists before, the property is assumed of that list when the result depends on it. For
  \<^verbatim>\<open>push_back\<close> and \<^verbatim>\<open>push_front\<close> the counter of the list they are called on is
  below 2^64 - 1, so that \<^verbatim>\<open>++size_\<close> does not wrap around; every list built from an
  empty one by operations that keep their preconditions is such a list.
\<close>

theorem empty_iff_size_zero:
  "size_matches default_ctor
   \<and> (\<forall>(h :: 'a :: default heap) b e h' l'. range_ctor h b e = Some (Inr (h', l')) \<longrightarrow> size_matches l')
   \<and> (\<forall>(h :: 'a heap) xs h' l'. init_ctor h xs = Inr (h', l') \<longrightarrow> size_matches l')
   \<and> (\<forall>(h :: 'a heap) other h' l'. copy_ctor h other = Some (Inr (h', l')) \<longrightarrow> size_matches l')
   \<and> (\<forall>other. size_matches other \<longrightarrow>
          size_matches (fst (move_ctor other)) \<and> size_matches (snd (move_ctor other)))
   \<and> (\<forall>v (h :: 'a heap) l h' l'. size_l l < 2 ^ 64 - 1 \<longrightarrow>
          push_back v (h, l) = Inr (h', l') \<longrightarrow> size_matches l')
   \<and> (\<forall>v (h :: 'a heap) l h' l'. size_l l < 2 ^ 64 - 1 \<longrightarrow>
          push_front v (h, l) = Inr (h', l') \<longrightarrow> size_matches l')
   \<and> (\<forall>pos (h :: 'a heap) l h' l' it. size_matches l \<longrightarrow> \<not> empty_l l \<longrightarrow>
          erase pos (h, l) = Inr ((h', l'), it) \<longrightarrow> size_matches l')
   \<and> (\<forall>(h :: 'a heap) l h' l'. clear (h, l) = Inr (h', l') \<longrightarrow> size_matches l')
   \<and> (\<forall>(h :: 'a heap) this other h' l'. copy_assign h this other = Some (Inr (h', l')) \<longrightarrow>
          size_matches l')
   \<and> (\<forall>this other. size_matches this \<longrightarrow> size_matches other \<longrightarrow>
          size_matches (fst (move_assign this other)) \<and> size_matches (snd (move_assign this other)))
   \<and> (\<forall>this. size_matches this \<longrightarrow> size_matches (self_assign this))"
proof -
  have c1: "size_matches default_ctor"
    by (simp add: size_matches_def list_defs)
  have c2: "\<forall>(h :: 'a heap) b e h' l'. range_ctor h b e = Some (Inr (h', l')) \<longrightarrow> size_matches l'"
    using c1 by (auto simp: range_ctor_def dest: range_loop_size_matches)
  have c3: "\<forall>(h :: 'a heap) xs h' l'. init_ctor h xs = Inr (h', l') \<longrightarrow> size_matches l'"
    using c1 by (auto simp: init_ctor_def dest: push_back_all_size_matches)
  have c4: "\<forall>(h :: 'a heap) other h' l'. copy_ctor h other = Some (Inr (h', l')) \<longrightarrow> size_matches l'"
    by (auto dest: copy_ctor_size_matches)
  have c5: "\<forall>other. size_matches other \<longrightarrow>
          size_matches (fst (move_ctor other)) \<and> size_matches (snd (move_ctor other))"
    using c1 by (simp add: move_ctor_eq)
  have c6: "\<forall>v (h :: 'a heap) l h' l'. size_l l < 2 ^ 64 - 1 \<longrightarrow>
          push_back v (h, l) = Inr (h', l') \<longrightarrow> size_matches l'"
    by (auto dest: push_back_size_matches)
  have c7: "\<forall>v (h :: 'a heap) l h' l'. size_l l < 2 ^ 64 - 1 \<longrightarrow>
          push_front v (h, l) = Inr (h', l') \<longrightarrow> size_matches l'"
    by (auto dest: push_front_size_matches)
  have c8: "\<forall>pos (h :: 'a heap) l h' l' it. size_matches l \<longrightarrow> \<not> empty_l l \<longrightarrow>
          erase pos (h, l) = Inr ((h', l'), it) \<longrightarrow> size_matches l'"
    by (auto intro: erase_size_matches)
  have c9: "\<forall>(h :: 'a heap) l h' l'. clear (h, l) = Inr (h', l') \<longrightarrow> size_matches l'"
    by (auto dest: clear_size_matches)
  have c10: "\<forall>(h :: 'a heap) this other h' l'. copy_assign h this other = Some (Inr (h', l')) \<longrightarrow>
          size_matches l'"
    by (auto dest: copy_assign_size_matches)
  have c11: "\<forall>this other. size_matches this \<longrightarrow> size_matches other \<longrightarrow>
          size_matches (fst (move_assign this other)) \<and> size_matches (snd (move_assign this other))"
    by (simp add: move_assign_eq)
  have c12: "\<forall>this. size_matches this \<longrightarrow> size_matches (self_assign this)"
    by (simp add: self_assign_def)
  show ?thesis
    by (intro conjI c1 c2 c3 c4 c5 c6 c7 c8 c9 c10 c11 c12)
qed


theorem empty_iff_size_zero_witness:
  "size_matches ex_a \<and> size_matches ex_b \<and> \<not> empty_l ex_b \<and> size_l ex_a < 2 ^ 64 - 1
   \<and> (\<exists>h' l'. range_ctor ex_heap (Some 2) (Some 4) = Some (Inr (h', l')) \<and> size_matches l')
   \<and> (\<exists>h' l'. init_ctor ex_heap [1, 2] = Inr (h', l') \<and> size_matches l')
   \<and> (\<exists>h' l'. copy_ctor ex_heap ex_b = Some (Inr (h', l')) \<and> size_matches l')
   \<and> size_matches (fst (move_ctor ex_b)) \<and> size_matches (snd (move_ctor ex_b))
   \<and> (\<exists>h' l'. push_back 7 (ex_heap, ex_a) = Inr (h', l') \<and> size_matches l')
   \<and> (\<exists>h' l'. push_front 7 (ex_heap, ex_a) = Inr (h', l') \<and> size_matches l')
   \<and> (\<exists>h' l' it. erase (Some 3) (ex_heap, ex_b) = Inr ((h', l'), it) \<and> size_matches l')
   \<and> (\<exists>h' l'. clear (ex_heap, ex_b) = Inr (h', l') \<and> size_matches l')
   \<and> (\<exists>h' l'. copy_assign ex_heap ex_a ex_b = Some (Inr (h', l')) \<and> size_matches l')
   \<and> size_matches (fst (move_assign ex_a ex_b)) \<and> size_matches (snd (move_assign ex_a ex_b))
   \<and> size_matches (self_assign ex_a)"
proof -
  note t = empty_iff_size_zero[where ?'a = int]
  have a: "size_matches ex_a" and b: "size_matches ex_b" and ne: "\<not> empty_l ex_b"
    and sa: "size_l ex_a < 2 ^ 64 - 1"
    by (simp_all add: size_matches_def list_defs ex_defs)
  have "\<exists>h' l'. range_ctor ex_heap (Some 2) (Some 4) = Some (Inr (h', l'))"
    by (simp add: range_ctor_def range_loop.simps eval_defs ex_defs)
  then have r1: "\<exists>h' l'. range_ctor ex_heap (Some 2) (Some 4) = Some (Inr (h', l')) \<and> size_matches l'"
    using t[THEN conjunct2, THEN conjunct1, rule_format] by blast
  have "\<exists>h' l'. init_ctor ex_heap [1, 2] = Inr (h', l')"
    by (simp add: init_ctor_def eval_defs ex_defs)
  then have r2: "\<exists>h' l'. init_ctor ex_heap [1, 2] = Inr (h', l') \<and> size_matches l'"
    using t[THEN conjunct2, THEN conjunct2, THEN conjunct1, rule_format] by blast
  have "\<exists>h' l'. copy_ctor ex_heap ex_b = Some (Inr (h', l'))"
    by (simp add: copy_ctor_def range_loop.simps eval_defs ex_defs)
  then have r3: "\<exists>h' l'. copy_ctor ex_heap ex_b = Some (Inr (h', l')) \<and> size_matches l'"
    using t[THEN conjunct2, THEN conjunct2, THEN conjunct2, THEN conjunct1, rule_format] by blast
  have "\<exists>h' l'. push_back 7 (ex_heap, ex_a) = Inr (h', l')"
    by (simp add: eval_defs ex_defs)
  then have r5: "\<exists>h' l'. push_back 7 (ex_heap, ex_a) = Inr (h', l') \<and> size_matches l'"
    using t[THEN conjunct2, THEN conjunct2, THEN conjunct2, THEN conjunct2, THEN conjunct2, THEN conjunct1, rule_format, OF sa] by blast
  have "\<exists>h' l'. push_front 7 (ex_heap, ex_a) = Inr (h', l')"
    by (simp add: eval_defs ex_defs)
  then have r6: "\<exists>h' l'. push_front 7 (ex_heap, ex_a) = Inr (h', l') \<and> size_matches l'"
    using t[THEN conjunct2, THEN conjunct2, THEN conjunct2, THEN conjunct2, THEN conjunct2, THEN conjunct2, THEN conjunct1, rule_format, OF sa] by blast
  have "\<exists>h' l'. clear (ex_heap, ex_b) = Inr (h', l')"
    by (simp add: eval_defs ex_defs)
  then have r8: "\<exists>h' l'. clear (ex_heap, ex_b) = Inr (h', l') \<and> size_matches l'"
    using t[THEN conjunct2, THEN conjunct2, THEN conjunct2, THEN conjunct2, THEN conjunct2, THEN conjunct2, THEN conjunct2, THEN conjunct2, THEN conjunct1, rule_format] by blast
  have "\<exists>h' l'. copy_assign ex_heap ex_a ex_b = Some (Inr (h', l'))"
    by (simp add: copy_assign_def copy_ctor_def range_loop.simps dtor_def swap_all eval_defs ex_defs)
  then have r9: "\<exists>h' l'. copy_assign ex_heap ex_a ex_b = Some (Inr (h', l')) \<and> size_matches l'"
    using t[THEN conjunct2, THEN conjunct2, THEN conjunct2, THEN conjunct2, THEN conjunct2, THEN conjunct2, THEN conjunct2, THEN conjunct2, THEN conjunct2, THEN conjunct1, rule_format] by blast
  have "\<exists>h' l' it. erase (Some 3) (ex_heap, ex_b) = Inr ((h', l'), it)"
    by (simp add: eval_defs ex_defs)
  then have r7: "\<exists>h' l' it. erase (Some 3) (ex_heap, ex_b) = Inr ((h', l'), it) \<and> size_matches l'"
    using t[THEN conjunct2, THEN conjunct2, THEN conjunct2, THEN conjunct2, THEN conjunct2, THEN conjunct2, THEN conjunct2, THEN conjunct1, rule_format, OF b ne] by blast
  note r4 = t[THEN conjunct2, THEN conjunct2, THEN conjunct2, THEN conjunct2, THEN conjunct1, rule_format, OF b]
  note r10 = t[THEN conjunct2, THEN conjunct2, THEN conjunct2, THEN conjunct2, THEN conjunct2, THEN conjunct2, THEN conjunct2, THEN conjunct2, THEN conjunct2, THEN conjunct2, THEN conjunct1, rule_format, OF a b]
  note r11 = t[THEN conjunct2, THEN conjunct2, THEN conjunct2, THEN conjunct2, THEN conjunct2, THEN conjunct2, THEN conjunct2, THEN conjunct2, THEN conjunct2, THEN conjunct2, THEN conjunct2, rule_format, OF a]
  from a b ne sa r1 r2 r3 r4 r5 r6 r7 r8 r9 r10 r11 show ?thesis
    by (intro conjI) simp_all
qed

section \<open>Copying a range\<close>

text \<open>
  The loop of the range constructors, started at a node of a well-formed list while the
  list under construction is well-formed and shares no node with it: it returns, having
  appended the remaining values, and has changed no node of the source.
\<close>

lemma range_loop_copy:
  assumes "cells h p as vs (Some s)" and "s \<notin> set as" and "s < length h"
    and "is_list h l bs ws t" and "nodes bs t \<inter> insert s (set as) = {}"
  shows "\<exists>h' l' bs' t'. range_loop (first_or as (Some s)) (Some s) (h, l) = Some (Inr (h', l'))
     \<and> is_list h' l' bs' (ws @ vs) t' \<and> length h \<le> length h'
     \<and> (\<forall>a<length h. a \<notin> nodes bs t \<longrightarrow> lookup h' a = lookup h a)"
  using assms
proof (induction as arbitrary: h p vs l bs ws t)
  case Nil
  then have "vs = []" by (cases vs) simp_all
  with Nil show ?case
    by (subst range_loop.simps) auto
next
  case (Cons a as)
  from Cons.prems(1) obtain v vs' where vs: "vs = v # vs'" by (cases vs) simp_all
  with Cons.prems have a: "lookup h a = Some \<lparr>next_m = first_or as (Some s), prev_m = p, data_m = v\<rparr>"
    and c: "cells h (Some a) as vs' (Some s)" and as: "a \<noteq> s" "s \<notin> set as"
    and disj: "a \<notin> nodes bs t" "s \<notin> nodes bs t" "\<forall>x\<in>set as. x \<notin> nodes bs t"
    by auto
  from a have al: "a < length h" by (rule lookup_less)
  from c have live: "\<forall>x\<in>set as. x < length h" by (auto dest: cells_live)
  from push_back_is_list[OF Cons.prems(4), of v] obtain h1 l1 bs1 t1 where
    pb: "push_back v (h, l) = Inr (h1, l1)" and il: "is_list h1 l1 bs1 (ws @ [v]) t1"
    and le: "length h \<le> length h1"
    and fr: "\<forall>x<length h. x \<notin> nodes bs t \<longrightarrow> lookup h1 x = lookup h x"
    and nd: "nodes bs1 t1 \<subseteq> nodes bs t \<union> {x. length h \<le> x}"
    by blast
  from fr al disj(1) a have a1: "lookup h1 a = Some \<lparr>next_m = first_or as (Some s), prev_m = p, data_m = v\<rparr>"
    by simp
  have step: "range_loop (Some a) (Some s) (h, l) = range_loop (first_or as (Some s)) (Some s) (h1, l1)"
    using as(1) a a1 pb by (subst range_loop.simps) (simp add: rd_def)
  have c1: "cells h1 (Some a) as vs' (Some s)"
    using fr live disj(3) by (intro cells_frame[OF c]) auto
  have s1: "s < length h1" using Cons.prems(3) le by simp
  have d1: "nodes bs1 t1 \<inter> insert s (set as) = {}"
    using nd disj live Cons.prems(3) by fastforce
  from Cons.IH[OF c1 as(2) s1 il d1] obtain h' l' bs' t' where
    r: "range_loop (first_or as (Some s)) (Some s) (h1, l1) = Some (Inr (h', l'))"
    and il': "is_list h' l' bs' ((ws @ [v]) @ vs') t'" and le': "length h1 \<le> length h'"
    and fr': "\<forall>x<length h1. x \<notin> nodes bs1 t1 \<longrightarrow> lookup h' x = lookup h1 x"
    by blast
  have "\<forall>x<length h. x \<notin> nodes bs t \<longrightarrow> lookup h' x = lookup h x"
  proof (intro allI impI)
    fix x assume x: "x < length h" "x \<notin> nodes bs t"
    with nd have "x \<notin> nodes bs1 t1" by auto
    with x le fr' fr show "lookup h' x = lookup h x" by simp
  qed
  with step r il' le le' vs show ?case by auto
qed

text \<open>
  Claim C8. For every well-formed list \<open>other\<close>, \<^verbatim>\<open>other.end()\<close> is defined and the
  constructor \<^verbatim>\<open>List(other.begin(), other.end())\<close> returns a list whose forward iteration
  visits the values of \<open>other\<close> in the same order and whose size is that of \<open>other\<close>.
  \<open>other\<close> is unchanged: no cell that existed before is modified, and \<open>other\<close> is
  still the same well-formed list of the same nodes and values.
\<close>

theorem range_ctor_round_trip:
  assumes "is_list h other as vs s"
  shows "\<exists>e h' l'. end_l h other = Inr e
     \<and> range_ctor h (begin_l other) e = Some (Inr (h', l'))
     \<and> forward h' l' = Some (Inr vs) \<and> size_l l' = size_l other
     \<and> forward h other = Some (Inr vs) \<and> forward h' other = Some (Inr vs)
     \<and> is_list h' other as vs s \<and> (\<forall>a<length h. lookup h' a = lookup h a)"
proof (cases "as = []")
  case True
  with assms have "vs = []" "other = default_ctor" by simp_all
  moreover have "range_loop None None (h, default_ctor) = Some (Inr (h, default_ctor))"
    by (subst range_loop.simps) simp
  moreover have "forward h default_ctor = Some (Inr [])"
    by (rule forward_is_list[of h default_ctor "[]" "[]" 0]) simp
  ultimately show ?thesis using True
    by (simp add: range_ctor_def end_l_def begin_l_def default_ctor_def)
next
  case False
  with assms have c: "cells h None as vs (Some s)" and dist: "distinct (as @ [s])"
    and sn: "sentinel h s (last as)"
    and hd: "head_m other = Some (hd as)" and tl: "tail_m other = Some (last as)"
    by (simp_all add: is_list_def)
  from cells_last[OF c False] tl have e: "end_l h other = Inr (Some s)"
    by (auto simp: end_l_def rd_def)
  from False hd have b: "begin_l other = first_or as (Some s)"
    by (cases as) (simp_all add: begin_l_def)
  from sentinelD[OF sn] have sl: "s < length h" by (auto dest: lookup_less)
  from dist have "s \<notin> set as" by simp
  from range_loop_copy[OF c this sl, of default_ctor "[]" "[]" 0] obtain h' l' bs' t' where
    r: "range_loop (first_or as (Some s)) (Some s) (h, default_ctor) = Some (Inr (h', l'))"
    and il: "is_list h' l' bs' vs t'"
    and fr: "\<forall>a<length h. lookup h' a = lookup h a"
    by (auto simp: nodes_def)
  from fr have o': "is_list h' other as vs s"
    by (intro is_list_frame[OF assms]) (auto dest: is_list_live[OF assms])
  from e b r fr o' forward_is_list[OF il] forward_is_list[OF o'] forward_is_list[OF assms]
    is_list_length[OF il] is_list_length[OF assms]
  show ?thesis by (simp add: range_ctor_def)
qed

theorem range_ctor_round_trip_witness:
  "is_list ex_heap ex_b [2, 3] [1, 2] 4
   \<and> end_l ex_heap ex_b = Inr (Some 4)
   \<and> (\<exists>h' l'. range_ctor ex_heap (begin_l ex_b) (Some 4) = Some (Inr (h', l'))
        \<and> forward h' l' = Some (Inr [1, 2]) \<and> size_l l' = 2
        \<and> forward h' ex_b = Some (Inr [1, 2]))"
proof -
  from range_ctor_round_trip[OF ex_is_list(2)] obtain e h' l' where
    e: "end_l ex_heap ex_b = Inr e"
    and r: "range_ctor ex_heap (begin_l ex_b) e = Some (Inr (h', l'))"
      "forward h' l' = Some (Inr [1, 2])" "size_l l' = size_l ex_b"
      "forward h' ex_b = Some (Inr [1, 2])"
    by blast
  have e4: "end_l ex_heap ex_b = Inr (Some 4)"
    by (simp add: eval_defs ex_defs)
  have "size_l ex_b = 2"
    by (simp add: size_l_def ex_b_def)
  with e e4 r ex_is_list(2) show ?thesis by auto
qed

end
